theory Spec2Isabelle
  imports Main
begin

section \<open>Data model\<close>

text \<open>
  A Python character is a string of length one, compared by its Unicode code point.
  It is modelled by that code point; \<open>ord\<close> reads it as a Python integer and \<open>chr\<close>
  raises \<open>ValueError\<close> outside \<open>range(0x110000)\<close>. A text is the list of its characters.
\<close>

type_synonym pychar = nat

type_synonym pytext = "pychar list"

datatype py_error = ValueError | IndexError

definition py_ord :: "pychar \<Rightarrow> int" where
  "py_ord c = int c"

definition py_chr :: "int \<Rightarrow> py_error + pychar" where
  "py_chr i = (if 0 \<le> i \<and> i < 1114112 then Inr (nat i) else Inl ValueError)"

text \<open>A character literal of the source, such as \<^verbatim>\<open>'a'\<close>.\<close>

definition lit :: "char \<Rightarrow> pychar" where
  "lit c = of_char c"

section \<open>The transform engine\<close>

text \<open>
  \<^verbatim>\<open>encrypt_character(ch, shift1, shift2)\<close>: the four alphabetic rules in the order of
  the source, then the identity on every other character. The shifts are Python integers;
  \<open>%\<close> with the positive modulus 26 is \<open>mod\<close> on \<open>int\<close>.
\<close>

definition encrypt_character :: "pychar \<Rightarrow> int \<Rightarrow> int \<Rightarrow> py_error + pychar" where
  "encrypt_character ch shift1 shift2 =
     (if lit CHR ''a'' \<le> ch \<and> ch \<le> lit CHR ''z'' then
        (if ch \<le> lit CHR ''m'' then
           (let shift = (shift1 * shift2) mod 26
            in py_chr (((py_ord ch - py_ord (lit CHR ''a'') + shift) mod 26) + py_ord (lit CHR ''a'')))
         else
           (let shift = (shift1 + shift2) mod 26
            in py_chr (((py_ord ch - py_ord (lit CHR ''a'') - shift) mod 26) + py_ord (lit CHR ''a''))))
      else if lit CHR ''A'' \<le> ch \<and> ch \<le> lit CHR ''Z'' then
        (if ch \<le> lit CHR ''M'' then
           (let shift = shift1 mod 26
            in py_chr (((py_ord ch - py_ord (lit CHR ''A'') - shift) mod 26) + py_ord (lit CHR ''A'')))
         else
           (let shift = (shift2 * shift2) mod 26
            in py_chr (((py_ord ch - py_ord (lit CHR ''A'') + shift) mod 26) + py_ord (lit CHR ''A''))))
      else Inr ch)"

text \<open>
  The candidate loop of \<^verbatim>\<open>decrypt_character\<close>, \<^verbatim>\<open>for i in range(26)\<close>, over the
  offsets still to be tried: the first candidate that encrypts to \<open>ch\<close> is returned, and
  when the offsets are used up the statement after the loop returns \<open>ch\<close> itself.
\<close>

fun decrypt_loop :: "pychar \<Rightarrow> pychar \<Rightarrow> int \<Rightarrow> int \<Rightarrow> nat list \<Rightarrow> py_error + pychar" where
  "decrypt_loop base ch shift1 shift2 [] = Inr ch"
| "decrypt_loop base ch shift1 shift2 (i # rest) =
     (case py_chr (py_ord base + int i) of
        Inl e \<Rightarrow> Inl e
      | Inr cand \<Rightarrow>
          (case encrypt_character cand shift1 shift2 of
             Inl e \<Rightarrow> Inl e
           | Inr r \<Rightarrow> if r = ch then Inr cand else decrypt_loop base ch shift1 shift2 rest))"

definition decrypt_character :: "pychar \<Rightarrow> int \<Rightarrow> int \<Rightarrow> py_error + pychar" where
  "decrypt_character ch shift1 shift2 =
     (if lit CHR ''a'' \<le> ch \<and> ch \<le> lit CHR ''z'' then
        decrypt_loop (lit CHR ''a'') ch shift1 shift2 [0..<26]
      else if lit CHR ''A'' \<le> ch \<and> ch \<le> lit CHR ''Z'' then
        decrypt_loop (lit CHR ''A'') ch shift1 shift2 [0..<26]
      else Inr ch)"

section \<open>Batch application and the two checks\<close>

text \<open>
  \<^verbatim>\<open>"".join(f(ch) for ch in text)\<close>: the characters are transformed from left to right,
  an exception ends the evaluation, and each one-character result is appended.
\<close>

fun join_chars :: "(pychar \<Rightarrow> py_error + pychar) \<Rightarrow> pytext \<Rightarrow> py_error + pytext" where
  "join_chars f [] = Inr []"
| "join_chars f (ch # rest) =
     (case f ch of
        Inl e \<Rightarrow> Inl e
      | Inr r \<Rightarrow> (case join_chars f rest of Inl e \<Rightarrow> Inl e | Inr rs \<Rightarrow> Inr (r # rs)))"

text \<open>
  The file functions read one text, transform it, write the result and return it. The
  model takes the text that the read returns and gives the text that is written and
  returned; opening, decoding and writing files belong to the caller's side.
\<close>

definition encrypt_file :: "pytext \<Rightarrow> int \<Rightarrow> int \<Rightarrow> py_error + pytext" where
  "encrypt_file text shift1 shift2 = join_chars (\<lambda>ch. encrypt_character ch shift1 shift2) text"

definition decrypt_file :: "pytext \<Rightarrow> int \<Rightarrow> int \<Rightarrow> py_error + pytext" where
  "decrypt_file cipher shift1 shift2 = join_chars (\<lambda>ch. decrypt_character ch shift1 shift2) cipher"

definition verify_roundtrip :: "pytext \<Rightarrow> int \<Rightarrow> int \<Rightarrow> py_error + bool" where
  "verify_roundtrip cipher shift1 shift2 =
     (case join_chars (\<lambda>ch. decrypt_character ch shift1 shift2) cipher of
        Inl e \<Rightarrow> Inl e
      | Inr decrypted \<Rightarrow>
          (case join_chars (\<lambda>ch. encrypt_character ch shift1 shift2) decrypted of
             Inl e \<Rightarrow> Inl e
           | Inr reenc \<Rightarrow> Inr (reenc = cipher)))"

text \<open>
  A record of the mismatch list of \<^verbatim>\<open>verify_strict\<close>: the tuple
  \<^verbatim>\<open>(i, original[i], decrypted[i])\<close> or the tuple \<^verbatim>\<open>("length", len(original), len(decrypted))\<close>.
\<close>

datatype mismatch = At nat pychar pychar | Length nat nat

text \<open>Indexing a string with a non-negative index; out of range it raises \<open>IndexError\<close>.\<close>

definition py_index :: "pytext \<Rightarrow> nat \<Rightarrow> py_error + pychar" where
  "py_index s i = (if i < length s then Inr (s ! i) else Inl IndexError)"

text \<open>
  The loop \<^verbatim>\<open>for i in range(n)\<close> of \<^verbatim>\<open>verify_strict\<close> from index \<open>i\<close> on, with
  the list collected so far. The cap is tested after each append, where the source breaks.
\<close>

function collect_mismatches ::
  "pytext \<Rightarrow> pytext \<Rightarrow> int \<Rightarrow> nat \<Rightarrow> nat \<Rightarrow> mismatch list \<Rightarrow> py_error + mismatch list" where
  "collect_mismatches original decrypted report_mismatches n i mismatches =
     (if i < n then
        (case py_index original i of
           Inl e \<Rightarrow> Inl e
         | Inr a \<Rightarrow>
             (case py_index decrypted i of
                Inl e \<Rightarrow> Inl e
              | Inr b \<Rightarrow>
                  if a \<noteq> b then
                    (let mismatches' = mismatches @ [At i a b]
                     in if int (length mismatches') \<ge> report_mismatches then Inr mismatches'
                        else collect_mismatches original decrypted report_mismatches n (Suc i) mismatches')
                  else collect_mismatches original decrypted report_mismatches n (Suc i) mismatches))
      else Inr mismatches)"
  by pat_completeness auto
termination
  by (relation "measure (\<lambda>(original, decrypted, report_mismatches, n, i, mismatches). n - i)") auto

definition verify_strict :: "pytext \<Rightarrow> pytext \<Rightarrow> int \<Rightarrow> py_error + (bool \<times> mismatch list)" where
  "verify_strict original decrypted report_mismatches =
     (if original = decrypted then Inr (True, [])
      else
        (let n = min (length original) (length decrypted)
         in case collect_mismatches original decrypted report_mismatches n 0 [] of
              Inl e \<Rightarrow> Inl e
            | Inr mismatches \<Rightarrow>
                if int (length mismatches) < report_mismatches \<and> length original \<noteq> length decrypted
                then Inr (False, mismatches @ [Length (length original) (length decrypted)])
                else Inr (False, mismatches)))"

text \<open>
  The two classification tests of the source, \<^verbatim>\<open>'a' <= ch <= 'z'\<close> and
  \<^verbatim>\<open>'A' <= ch <= 'Z'\<close>, named for the statements below.
\<close>

definition is_lower :: "pychar \<Rightarrow> bool" where
  "is_lower ch \<longleftrightarrow> lit CHR ''a'' \<le> ch \<and> ch \<le> lit CHR ''z''"

definition is_upper :: "pychar \<Rightarrow> bool" where
  "is_upper ch \<longleftrightarrow> lit CHR ''A'' \<le> ch \<and> ch \<le> lit CHR ''Z''"

text \<open>
  For the statement about \<^verbatim>\<open>verify_strict\<close>: every position of the common prefix at
  which the two texts differ, in increasing order, as the record the source builds there.
\<close>

definition differing_positions :: "pytext \<Rightarrow> pytext \<Rightarrow> nat \<Rightarrow> nat \<Rightarrow> mismatch list" where
  "differing_positions original decrypted i n =
     map (\<lambda>j. At j (original ! j) (decrypted ! j))
         (filter (\<lambda>j. original ! j \<noteq> decrypted ! j) [i..<n])"

declare collect_mismatches.simps [simp del]

section \<open>Basic facts\<close>

lemma lit_values [simp]:
  "lit CHR ''a'' = 97" "lit CHR ''m'' = 109" "lit CHR ''n'' = 110" "lit CHR ''z'' = 122"
  "lit CHR ''A'' = 65" "lit CHR ''M'' = 77" "lit CHR ''N'' = 78" "lit CHR ''Z'' = 90"
  by (simp_all add: lit_def)

lemma py_chr_offset:
  "0 \<le> k \<Longrightarrow> k < 26 \<Longrightarrow> py_chr (k + 97) = Inr (nat (k + 97))"
  "0 \<le> k \<Longrightarrow> k < 26 \<Longrightarrow> py_chr (k + 65) = Inr (nat (k + 65))"
  by (simp_all add: py_chr_def)

subsection \<open>The forward transform, rule by rule\<close>

lemma encrypt_lower_first:
  "97 \<le> ch \<Longrightarrow> ch \<le> 109 \<Longrightarrow>
   encrypt_character ch s1 s2 = Inr (nat ((int ch - 97 + (s1 * s2) mod 26) mod 26 + 97))"
  by (simp add: encrypt_character_def py_ord_def py_chr_offset)

lemma encrypt_lower_second:
  "110 \<le> ch \<Longrightarrow> ch \<le> 122 \<Longrightarrow>
   encrypt_character ch s1 s2 = Inr (nat ((int ch - 97 - (s1 + s2) mod 26) mod 26 + 97))"
  by (simp add: encrypt_character_def py_ord_def py_chr_offset)

lemma encrypt_upper_first:
  "65 \<le> ch \<Longrightarrow> ch \<le> 77 \<Longrightarrow>
   encrypt_character ch s1 s2 = Inr (nat ((int ch - 65 - s1 mod 26) mod 26 + 65))"
  by (simp add: encrypt_character_def py_ord_def py_chr_offset)

lemma encrypt_upper_second:
  "78 \<le> ch \<Longrightarrow> ch \<le> 90 \<Longrightarrow>
   encrypt_character ch s1 s2 = Inr (nat ((int ch - 65 + (s2 * s2) mod 26) mod 26 + 65))"
  by (simp add: encrypt_character_def py_ord_def py_chr_offset)

lemma encrypt_other:
  "\<not> is_lower ch \<Longrightarrow> \<not> is_upper ch \<Longrightarrow> encrypt_character ch s1 s2 = Inr ch"
  by (auto simp add: encrypt_character_def is_lower_def is_upper_def)

lemma encrypt_total: "\<exists>r. encrypt_character ch s1 s2 = Inr r"
  by (simp add: encrypt_character_def py_ord_def py_chr_offset Let_def)

lemma encrypt_lower_closed:
  assumes "is_lower ch" "encrypt_character ch s1 s2 = Inr r"
  shows "is_lower r"
proof (cases "ch \<le> 109")
  case True
  have "0 \<le> (int ch - 97 + (s1 * s2) mod 26) mod 26" "(int ch - 97 + (s1 * s2) mod 26) mod 26 < 26"
    by simp_all
  with assms True show ?thesis by (simp add: encrypt_lower_first is_lower_def) linarith
next
  case False
  have "0 \<le> (int ch - 97 - (s1 + s2) mod 26) mod 26" "(int ch - 97 - (s1 + s2) mod 26) mod 26 < 26"
    by simp_all
  with assms False show ?thesis by (simp add: encrypt_lower_second is_lower_def) linarith
qed

lemma encrypt_upper_closed:
  assumes "is_upper ch" "encrypt_character ch s1 s2 = Inr r"
  shows "is_upper r"
proof (cases "ch \<le> 77")
  case True
  have "0 \<le> (int ch - 65 - s1 mod 26) mod 26" "(int ch - 65 - s1 mod 26) mod 26 < 26"
    by simp_all
  with assms True show ?thesis by (simp add: encrypt_upper_first is_upper_def) linarith
next
  case False
  have "0 \<le> (int ch - 65 + (s2 * s2) mod 26) mod 26" "(int ch - 65 + (s2 * s2) mod 26) mod 26 < 26"
    by simp_all
  with assms False show ?thesis by (simp add: encrypt_upper_second is_upper_def) linarith
qed

lemma encrypt_mod_shifts:
  "encrypt_character ch s1 s2 = encrypt_character ch (s1 mod 26) (s2 mod 26)"
  by (simp add: encrypt_character_def mod_mult_eq mod_add_eq)

subsection \<open>The candidate search\<close>

lemma decrypt_loop_find:
  assumes "base \<le> 1000" "\<forall>i\<in>set offs. i < 26"
  shows "decrypt_loop base ch s1 s2 offs =
         Inr (case find (\<lambda>i. encrypt_character (base + i) s1 s2 = Inr ch) offs of
                None \<Rightarrow> ch | Some i \<Rightarrow> base + i)"
  using assms
proof (induction offs)
  case Nil
  show ?case by simp
next
  case (Cons i offs)
  obtain r where r: "encrypt_character (base + i) s1 s2 = Inr r"
    using encrypt_total by blast
  have c: "py_chr (py_ord base + int i) = Inr (base + i)"
    using Cons.prems by (simp add: py_chr_def py_ord_def nat_add_distrib)
  show ?case using Cons r c by auto
qed

lemma decrypt_loop_mod_shifts:
  "decrypt_loop base ch s1 s2 offs = decrypt_loop base ch (s1 mod 26) (s2 mod 26) offs"
proof (induction offs)
  case Nil
  show ?case by simp
next
  case (Cons i offs)
  have "encrypt_character c (s1 mod 26) (s2 mod 26) = encrypt_character c s1 s2" for c
    by (rule encrypt_mod_shifts [symmetric])
  with Cons show ?case by (simp split: sum.splits)
qed

lemma decrypt_character_find:
  "decrypt_character ch s1 s2 =
     (if is_lower ch then
        Inr (case find (\<lambda>i. encrypt_character (97 + i) s1 s2 = Inr ch) [0..<26] of
               None \<Rightarrow> ch | Some i \<Rightarrow> 97 + i)
      else if is_upper ch then
        Inr (case find (\<lambda>i. encrypt_character (65 + i) s1 s2 = Inr ch) [0..<26] of
               None \<Rightarrow> ch | Some i \<Rightarrow> 65 + i)
      else Inr ch)"
  by (simp add: decrypt_character_def is_lower_def is_upper_def decrypt_loop_find)

lemma decrypt_total: "\<exists>r. decrypt_character ch s1 s2 = Inr r"
  by (simp add: decrypt_character_find)

lemma decrypt_mod_shifts:
  "decrypt_character ch s1 s2 = decrypt_character ch (s1 mod 26) (s2 mod 26)"
  unfolding decrypt_character_def
  by (simp only: decrypt_loop_mod_shifts [of _ _ s1 s2])

lemma find_upt_bound: "find P [0..<n] = Some i \<Longrightarrow> i < n"
  by (auto simp add: find_Some_iff)

lemma upper_not_lower: "is_upper ch \<Longrightarrow> \<not> is_lower ch"
  by (simp add: is_upper_def is_lower_def)

lemma decrypt_lower_closed:
  assumes "is_lower ch" "decrypt_character ch s1 s2 = Inr r"
  shows "is_lower r"
proof (cases "find (\<lambda>i. encrypt_character (97 + i) s1 s2 = Inr ch) [0..<26]")
  case None
  with assms show ?thesis by (simp add: decrypt_character_find)
next
  case (Some i)
  then have "i < 26" by (rule find_upt_bound)
  with assms Some show ?thesis by (auto simp add: decrypt_character_find is_lower_def)
qed

lemma decrypt_upper_closed:
  assumes "is_upper ch" "decrypt_character ch s1 s2 = Inr r"
  shows "is_upper r"
proof (cases "find (\<lambda>i. encrypt_character (65 + i) s1 s2 = Inr ch) [0..<26]")
  case None
  with assms show ?thesis by (simp add: decrypt_character_find upper_not_lower)
next
  case (Some i)
  then have "i < 26" by (rule find_upt_bound)
  with assms Some show ?thesis
    by (auto simp add: decrypt_character_find upper_not_lower) (simp add: is_upper_def)
qed

lemma decrypt_other:
  "\<not> is_lower ch \<Longrightarrow> \<not> is_upper ch \<Longrightarrow> decrypt_character ch s1 s2 = Inr ch"
  by (simp add: decrypt_character_find)

lemma find_upt_Some:
  "find P [0..<n] = Some i \<longleftrightarrow> i < n \<and> P i \<and> (\<forall>j<i. \<not> P j)"
  by (auto simp add: find_Some_iff)

lemma find_upt_None: "find P [0..<n] = None \<longleftrightarrow> (\<forall>i<n. \<not> P i)"
  by (auto simp add: find_None_iff)

lemma find_upt_cases:
  obtains (none) "find P [0..<n] = None" "\<forall>i<n. \<not> P i"
  | (some) i where "find P [0..<n] = Some i" "i < n" "P i" "\<forall>j<i. \<not> P j"
  by (cases "find P [0..<n]") (auto simp add: find_upt_Some find_upt_None)

lemma decrypt_lower_search:
  assumes "is_lower ch"
  shows "if \<exists>i<26. encrypt_character (97 + i) s1 s2 = Inr ch
         then \<exists>i<26. decrypt_character ch s1 s2 = Inr (97 + i)
                \<and> encrypt_character (97 + i) s1 s2 = Inr ch
                \<and> (\<forall>j<i. encrypt_character (97 + j) s1 s2 \<noteq> Inr ch)
         else decrypt_character ch s1 s2 = Inr ch"
proof (cases rule: find_upt_cases [of "\<lambda>i. encrypt_character (97 + i) s1 s2 = Inr ch" 26])
  case none
  with assms show ?thesis by (auto simp add: decrypt_character_find)
next
  case (some i)
  with assms have "decrypt_character ch s1 s2 = Inr (97 + i)"
    by (simp add: decrypt_character_find)
  with some show ?thesis by auto
qed

lemma decrypt_upper_search:
  assumes "is_upper ch"
  shows "if \<exists>i<26. encrypt_character (65 + i) s1 s2 = Inr ch
         then \<exists>i<26. decrypt_character ch s1 s2 = Inr (65 + i)
                \<and> encrypt_character (65 + i) s1 s2 = Inr ch
                \<and> (\<forall>j<i. encrypt_character (65 + j) s1 s2 \<noteq> Inr ch)
         else decrypt_character ch s1 s2 = Inr ch"
proof (cases rule: find_upt_cases [of "\<lambda>i. encrypt_character (65 + i) s1 s2 = Inr ch" 26])
  case none
  with assms show ?thesis by (auto simp add: decrypt_character_find upper_not_lower)
next
  case (some i)
  with assms have "decrypt_character ch s1 s2 = Inr (65 + i)"
    by (simp add: decrypt_character_find upper_not_lower)
  with some show ?thesis by auto
qed

lemma roundtrip_lower:
  assumes "is_lower ch"
  shows "\<exists>c r. encrypt_character ch s1 s2 = Inr c \<and> decrypt_character c s1 s2 = Inr r
           \<and> is_lower r \<and> r \<le> ch \<and> encrypt_character r s1 s2 = Inr c"
proof -
  obtain c where c: "encrypt_character ch s1 s2 = Inr c"
    using encrypt_total by blast
  with assms have lc: "is_lower c" by (rule encrypt_lower_closed)
  from assms obtain k where k: "k < 26" "ch = 97 + k"
    by (auto simp add: is_lower_def intro: that [of "ch - 97"])
  show ?thesis
  proof (cases rule: find_upt_cases [of "\<lambda>i. encrypt_character (97 + i) s1 s2 = Inr c" 26])
    case none
    with k c show ?thesis by auto
  next
    case (some i)
    with lc have d: "decrypt_character c s1 s2 = Inr (97 + i)"
      by (simp add: decrypt_character_find)
    have "\<not> k < i" using some(4) k c by auto
    then have "97 + i \<le> ch" using k by simp
    moreover have "is_lower (97 + i)" using some(2) by (simp add: is_lower_def)
    ultimately show ?thesis using c d some(3) by blast
  qed
qed

lemma roundtrip_upper:
  assumes "is_upper ch"
  shows "\<exists>c r. encrypt_character ch s1 s2 = Inr c \<and> decrypt_character c s1 s2 = Inr r
           \<and> is_upper r \<and> r \<le> ch \<and> encrypt_character r s1 s2 = Inr c"
proof -
  obtain c where c: "encrypt_character ch s1 s2 = Inr c"
    using encrypt_total by blast
  with assms have uc: "is_upper c" by (rule encrypt_upper_closed)
  from assms obtain k where k: "k < 26" "ch = 65 + k"
    by (auto simp add: is_upper_def intro: that [of "ch - 65"])
  show ?thesis
  proof (cases rule: find_upt_cases [of "\<lambda>i. encrypt_character (65 + i) s1 s2 = Inr c" 26])
    case none
    with k c show ?thesis by auto
  next
    case (some i)
    with uc have d: "decrypt_character c s1 s2 = Inr (65 + i)"
      by (simp add: decrypt_character_find upper_not_lower)
    have "\<not> k < i" using some(4) k c by auto
    then have "65 + i \<le> ch" using k by simp
    moreover have "is_upper (65 + i)" using some(2) by (simp add: is_upper_def)
    ultimately show ?thesis using c d some(3) by blast
  qed
qed

subsection \<open>Batch application\<close>

lemma join_chars_pointwise:
  assumes "\<And>c. \<exists>r. f c = Inr r"
  shows "\<exists>out. join_chars f T = Inr out \<and> list_all2 (\<lambda>c r. f c = Inr r) T out"
proof (induction T)
  case Nil
  show ?case by simp
next
  case (Cons c cs)
  obtain r where "f c = Inr r" using assms by blast
  with Cons show ?case by auto
qed

subsection \<open>The mismatch loop\<close>

lemma collect_mismatches_take:
  assumes "n \<le> length original" "n \<le> length decrypted" "int (length acc) < rm"
  shows "collect_mismatches original decrypted rm n i acc =
         Inr (take (nat rm) (acc @ differing_positions original decrypted i n))"
  using assms
proof (induction original decrypted rm n i acc rule: collect_mismatches.induct)
  case (1 original decrypted rm n i acc)
  show ?case
  proof (cases "i < n")
    case False
    with "1.prems" show ?thesis
      by (subst collect_mismatches.simps) (simp add: differing_positions_def)
  next
    case True
    then have idx: "py_index original i = Inr (original ! i)" "py_index decrypted i = Inr (decrypted ! i)"
      using "1.prems" by (simp_all add: py_index_def)
    have dp: "differing_positions original decrypted i n =
        (if original ! i \<noteq> decrypted ! i then [At i (original ! i) (decrypted ! i)] else [])
        @ differing_positions original decrypted (Suc i) n"
      using True by (simp add: differing_positions_def upt_conv_Cons)
    show ?thesis
    proof (cases "original ! i = decrypted ! i")
      case same: True
      have "collect_mismatches original decrypted rm n i acc =
            collect_mismatches original decrypted rm n (Suc i) acc"
        using True idx same by (subst collect_mismatches.simps) simp
      also have "\<dots> = Inr (take (nat rm) (acc @ differing_positions original decrypted (Suc i) n))"
        using "1.IH"(2) [OF True idx(1) idx(2)] same "1.prems" by simp
      finally show ?thesis using dp same by simp
    next
      case diff: False
      let ?acc' = "acc @ [At i (original ! i) (decrypted ! i)]"
      show ?thesis
      proof (cases "int (length ?acc') \<ge> rm")
        case full: True
        have "collect_mismatches original decrypted rm n i acc = Inr ?acc'"
          using True idx diff full by (subst collect_mismatches.simps) (simp add: Let_def)
        moreover have "nat rm = length ?acc'"
          using full "1.prems"(3) by simp
        ultimately show ?thesis using dp diff by simp
      next
        case more: False
        have "collect_mismatches original decrypted rm n i acc =
              collect_mismatches original decrypted rm n (Suc i) ?acc'"
          using True idx diff more by (subst collect_mismatches.simps) (simp add: Let_def)
        also have "\<dots> = Inr (take (nat rm) (?acc' @ differing_positions original decrypted (Suc i) n))"
          using "1.IH"(1) [OF True idx(1) idx(2) _ refl] diff more "1.prems" by simp
        finally show ?thesis using dp diff by simp
      qed
    qed
  qed
qed

lemma collect_mismatches_total:
  assumes "n \<le> length original" "n \<le> length decrypted"
  shows "\<exists>recs. collect_mismatches original decrypted rm n i acc = Inr recs"
  using assms
proof (induction original decrypted rm n i acc rule: collect_mismatches.induct)
  case (1 original decrypted rm n i acc)
  show ?case
  proof (cases "i < n")
    case False
    then show ?thesis by (subst collect_mismatches.simps) simp
  next
    case True
    then have idx: "py_index original i = Inr (original ! i)" "py_index decrypted i = Inr (decrypted ! i)"
      using "1.prems" by (simp_all add: py_index_def)
    show ?thesis
    proof (cases "original ! i = decrypted ! i")
      case same: True
      have "collect_mismatches original decrypted rm n i acc =
            collect_mismatches original decrypted rm n (Suc i) acc"
        using True idx same by (subst collect_mismatches.simps) simp
      then show ?thesis
        using "1.IH"(2) [OF True idx(1) idx(2)] same "1.prems" by simp
    next
      case diff: False
      let ?acc' = "acc @ [At i (original ! i) (decrypted ! i)]"
      show ?thesis
      proof (cases "int (length ?acc') \<ge> rm")
        case full: True
        have "collect_mismatches original decrypted rm n i acc = Inr ?acc'"
          using True idx diff full by (subst collect_mismatches.simps) (simp add: Let_def)
        then show ?thesis by simp
      next
        case more: False
        have "collect_mismatches original decrypted rm n i acc =
              collect_mismatches original decrypted rm n (Suc i) ?acc'"
          using True idx diff more by (subst collect_mismatches.simps) (simp add: Let_def)
        then show ?thesis
          using "1.IH"(1) [OF True idx(1) idx(2) _ refl] diff more "1.prems" by simp
      qed
    qed
  qed
qed

lemma verify_strict_total:
  "\<exists>ok recs. verify_strict original decrypted rm = Inr (ok, recs) \<and> (ok \<longleftrightarrow> original = decrypted)
     \<and> (ok \<longrightarrow> recs = [])"
proof (cases "original = decrypted")
  case True
  then show ?thesis by (auto simp add: verify_strict_def)
next
  case False
  obtain recs where
    "collect_mismatches original decrypted rm (min (length original) (length decrypted)) 0 [] = Inr recs"
    using collect_mismatches_total [of "min (length original) (length decrypted)" original decrypted rm 0 "[]"]
    by auto
  with False show ?thesis by (auto simp add: verify_strict_def Let_def)
qed

lemma verify_strict_differ:
  assumes "original \<noteq> decrypted" "1 \<le> rm"
  shows "verify_strict original decrypted rm =
     Inr (False,
       take (nat rm) (differing_positions original decrypted 0 (min (length original) (length decrypted)))
       @ (if int (length (take (nat rm)
                 (differing_positions original decrypted 0 (min (length original) (length decrypted))))) < rm
             \<and> length original \<noteq> length decrypted
          then [Length (length original) (length decrypted)] else []))"
proof -
  have "collect_mismatches original decrypted rm (min (length original) (length decrypted)) 0 [] =
      Inr (take (nat rm) ([] @ differing_positions original decrypted 0 (min (length original) (length decrypted))))"
    using assms(2) by (intro collect_mismatches_take) simp_all
  with assms(1) show ?thesis by (simp add: verify_strict_def Let_def)
qed

lemma collect_mismatches_first:
  assumes "n \<le> length original" "n \<le> length decrypted" "rm \<le> 0" "acc = []"
  shows "collect_mismatches original decrypted rm n i acc =
         Inr (take 1 (differing_positions original decrypted i n))"
  using assms
proof (induction original decrypted rm n i acc rule: collect_mismatches.induct)
  case (1 original decrypted rm n i acc)
  show ?case
  proof (cases "i < n")
    case False
    with "1.prems" show ?thesis
      by (subst collect_mismatches.simps) (simp add: differing_positions_def)
  next
    case True
    then have idx: "py_index original i = Inr (original ! i)" "py_index decrypted i = Inr (decrypted ! i)"
      using "1.prems" by (simp_all add: py_index_def)
    have dp: "differing_positions original decrypted i n =
        (if original ! i \<noteq> decrypted ! i then [At i (original ! i) (decrypted ! i)] else [])
        @ differing_positions original decrypted (Suc i) n"
      using True by (simp add: differing_positions_def upt_conv_Cons)
    show ?thesis
    proof (cases "original ! i = decrypted ! i")
      case same: True
      have "collect_mismatches original decrypted rm n i acc =
            collect_mismatches original decrypted rm n (Suc i) acc"
        using True idx same by (subst collect_mismatches.simps) simp
      also have "\<dots> = Inr (take 1 (differing_positions original decrypted (Suc i) n))"
        using "1.IH"(2) [OF True idx(1) idx(2)] same "1.prems" by simp
      finally show ?thesis using dp same by simp
    next
      case diff: False
      have "collect_mismatches original decrypted rm n i acc = Inr [At i (original ! i) (decrypted ! i)]"
        using True idx diff "1.prems"(3,4) by (subst collect_mismatches.simps) (simp add: Let_def)
      then show ?thesis using dp diff by simp
    qed
  qed
qed

lemma verify_strict_differ_any:
  assumes "original \<noteq> decrypted"
  shows "verify_strict original decrypted rm =
     Inr (False,
       take (nat (max 1 rm)) (differing_positions original decrypted 0 (min (length original) (length decrypted)))
       @ (if int (length (take (nat (max 1 rm))
                 (differing_positions original decrypted 0 (min (length original) (length decrypted))))) < rm
             \<and> length original \<noteq> length decrypted
          then [Length (length original) (length decrypted)] else []))"
proof (cases "1 \<le> rm")
  case True
  then have "max 1 rm = rm" by simp
  with verify_strict_differ [OF assms True] show ?thesis by simp
next
  case False
  then have m: "nat (max 1 rm) = 1" by simp
  have "collect_mismatches original decrypted rm (min (length original) (length decrypted)) 0 [] =
      Inr (take 1 (differing_positions original decrypted 0 (min (length original) (length decrypted))))"
    using False by (intro collect_mismatches_first) simp_all
  with assms False show ?thesis by (simp add: verify_strict_def Let_def m)
qed

lemma verify_strict_all_caps:
  "(\<exists>res. verify_strict original decrypted rm = Inr res)
   \<and> (verify_strict original decrypted rm = Inr (True, []) \<longleftrightarrow> original = decrypted)
   \<and> (original \<noteq> decrypted \<longrightarrow>
        (\<exists>recs. verify_strict original decrypted rm = Inr (False, recs)
           \<and> (1 \<le> rm \<longrightarrow> int (length recs) \<le> rm)
           \<and> recs =
               take (nat (max 1 rm))
                 (differing_positions original decrypted 0 (min (length original) (length decrypted)))
               @ (if int (length (take (nat (max 1 rm))
                      (differing_positions original decrypted 0
                         (min (length original) (length decrypted))))) < rm
                     \<and> length original \<noteq> length decrypted
                  then [Length (length original) (length decrypted)] else [])))"
proof -
  obtain ok recs where t: "verify_strict original decrypted rm = Inr (ok, recs)"
    "ok \<longleftrightarrow> original = decrypted" "ok \<longrightarrow> recs = []"
    using verify_strict_total by blast
  have a: "\<exists>res. verify_strict original decrypted rm = Inr res"
    using t(1) by simp
  have b: "verify_strict original decrypted rm = Inr (True, []) \<longleftrightarrow> original = decrypted"
    using t by auto
  have c: "\<exists>recs. verify_strict original decrypted rm = Inr (False, recs)
           \<and> (1 \<le> rm \<longrightarrow> int (length recs) \<le> rm)
           \<and> recs =
               take (nat (max 1 rm))
                 (differing_positions original decrypted 0 (min (length original) (length decrypted)))
               @ (if int (length (take (nat (max 1 rm))
                      (differing_positions original decrypted 0
                         (min (length original) (length decrypted))))) < rm
                     \<and> length original \<noteq> length decrypted
                  then [Length (length original) (length decrypted)] else [])"
    if h: "original \<noteq> decrypted"
    by (subst verify_strict_differ_any [OF h]) auto
  from a b c show ?thesis by blast
qed

section \<open>The claims\<close>

text \<open>
  C5. With \<open>shift1 = 2\<close> and \<open>shift2 = 3\<close> the letters \<open>T\<close> and \<open>E\<close> encrypt to the same
  character, which is \<open>C\<close>, and decrypting \<open>C\<close> with the same shifts gives \<open>E\<close>, the
  candidate of the lower offset.
\<close>

theorem collision_T_E_2_3:
  "encrypt_character (lit CHR ''T'') 2 3 = encrypt_character (lit CHR ''E'') 2 3
   \<and> encrypt_character (lit CHR ''T'') 2 3 = Inr (lit CHR ''C'')
   \<and> decrypt_character (lit CHR ''C'') 2 3 = Inr (lit CHR ''E'')"
  by code_simp

text \<open>
  C8. A character outside \<open>a-z\<close> and \<open>A-Z\<close> is returned unchanged by
  \<open>encrypt_character\<close> and by \<open>decrypt_character\<close>, whatever the two shifts are.
\<close>

theorem identity_on_unclassified:
  "\<not> is_lower c \<and> \<not> is_upper c \<longrightarrow>
     encrypt_character c s1 s2 = Inr c \<and> decrypt_character c s1 s2 = Inr c"
  by (simp add: encrypt_other decrypt_other)

theorem identity_on_unclassified_witness:
  "(\<not> is_lower (lit CHR ''7'') \<and> \<not> is_upper (lit CHR ''7''))
   \<and> encrypt_character (lit CHR ''7'') (- 4) 1000 = Inr (lit CHR ''7'')
   \<and> decrypt_character (lit CHR ''7'') (- 4) 1000 = Inr (lit CHR ''7'')
   \<and> (\<not> is_lower 955 \<and> \<not> is_upper 955)
   \<and> encrypt_character 955 2 3 = Inr 955
   \<and> decrypt_character 955 2 3 = Inr 955"
  using identity_on_unclassified [of "lit CHR ''7''" "- 4" 1000]
    identity_on_unclassified [of 955 2 3]
  by (simp add: is_lower_def is_upper_def lit_def)

text \<open>
  C2. The forward transform follows the rule table. A character in \<open>a-m\<close> moves
  forward by \<open>(shift1 * shift2) mod 26\<close> and one in \<open>n-z\<close> backward by
  \<open>(shift1 + shift2) mod 26\<close>, both wrapping within \<open>a-z\<close>; a character in \<open>A-M\<close> moves
  backward by \<open>shift1 mod 26\<close> and one in \<open>N-Z\<close> forward by \<open>(shift2 * shift2) mod 26\<close>,
  both wrapping within \<open>A-Z\<close>; every other character is returned unchanged. Moving
  and wrapping are read on the zero-based offset of the character in its alphabet.
\<close>

theorem encrypt_character_rule_table:
  "(lit CHR ''a'' \<le> ch \<and> ch \<le> lit CHR ''m'' \<longrightarrow>
      (\<exists>r. encrypt_character ch s1 s2 = Inr r \<and> is_lower r
         \<and> py_ord r - py_ord (lit CHR ''a'')
             = (py_ord ch - py_ord (lit CHR ''a'') + (s1 * s2) mod 26) mod 26))
   \<and> (lit CHR ''n'' \<le> ch \<and> ch \<le> lit CHR ''z'' \<longrightarrow>
      (\<exists>r. encrypt_character ch s1 s2 = Inr r \<and> is_lower r
         \<and> py_ord r - py_ord (lit CHR ''a'')
             = (py_ord ch - py_ord (lit CHR ''a'') - (s1 + s2) mod 26) mod 26))
   \<and> (lit CHR ''A'' \<le> ch \<and> ch \<le> lit CHR ''M'' \<longrightarrow>
      (\<exists>r. encrypt_character ch s1 s2 = Inr r \<and> is_upper r
         \<and> py_ord r - py_ord (lit CHR ''A'')
             = (py_ord ch - py_ord (lit CHR ''A'') - s1 mod 26) mod 26))
   \<and> (lit CHR ''N'' \<le> ch \<and> ch \<le> lit CHR ''Z'' \<longrightarrow>
      (\<exists>r. encrypt_character ch s1 s2 = Inr r \<and> is_upper r
         \<and> py_ord r - py_ord (lit CHR ''A'')
             = (py_ord ch - py_ord (lit CHR ''A'') + (s2 * s2) mod 26) mod 26))
   \<and> (\<not> is_lower ch \<and> \<not> is_upper ch \<longrightarrow> encrypt_character ch s1 s2 = Inr ch)"
proof -
  have m: "0 \<le> x mod 26" "x mod 26 < 26" for x :: int
    by simp_all
  have lf: "lit CHR ''a'' \<le> ch \<and> ch \<le> lit CHR ''m'' \<longrightarrow>
      (\<exists>r. encrypt_character ch s1 s2 = Inr r \<and> is_lower r
         \<and> py_ord r - py_ord (lit CHR ''a'')
             = (py_ord ch - py_ord (lit CHR ''a'') + (s1 * s2) mod 26) mod 26)"
    using m [of "int ch - 97 + (s1 * s2) mod 26"]
    by (auto simp add: encrypt_lower_first is_lower_def py_ord_def)
  have ls: "lit CHR ''n'' \<le> ch \<and> ch \<le> lit CHR ''z'' \<longrightarrow>
      (\<exists>r. encrypt_character ch s1 s2 = Inr r \<and> is_lower r
         \<and> py_ord r - py_ord (lit CHR ''a'')
             = (py_ord ch - py_ord (lit CHR ''a'') - (s1 + s2) mod 26) mod 26)"
    using m [of "int ch - 97 - (s1 + s2) mod 26"]
    by (auto simp add: encrypt_lower_second is_lower_def py_ord_def)
  have uf: "lit CHR ''A'' \<le> ch \<and> ch \<le> lit CHR ''M'' \<longrightarrow>
      (\<exists>r. encrypt_character ch s1 s2 = Inr r \<and> is_upper r
         \<and> py_ord r - py_ord (lit CHR ''A'')
             = (py_ord ch - py_ord (lit CHR ''A'') - s1 mod 26) mod 26)"
    using m [of "int ch - 65 - s1 mod 26"]
    by (auto simp add: encrypt_upper_first is_upper_def py_ord_def)
  have us: "lit CHR ''N'' \<le> ch \<and> ch \<le> lit CHR ''Z'' \<longrightarrow>
      (\<exists>r. encrypt_character ch s1 s2 = Inr r \<and> is_upper r
         \<and> py_ord r - py_ord (lit CHR ''A'')
             = (py_ord ch - py_ord (lit CHR ''A'') + (s2 * s2) mod 26) mod 26)"
    using m [of "int ch - 65 + (s2 * s2) mod 26"]
    by (auto simp add: encrypt_upper_second is_upper_def py_ord_def)
  have ot: "\<not> is_lower ch \<and> \<not> is_upper ch \<longrightarrow> encrypt_character ch s1 s2 = Inr ch"
    by (simp add: encrypt_other)
  from lf ls uf us ot show ?thesis by blast
qed

theorem encrypt_character_rule_table_witness:
  "lit CHR ''a'' \<le> lit CHR ''e'' \<and> lit CHR ''e'' \<le> lit CHR ''m''
   \<and> encrypt_character (lit CHR ''e'') 2 3 = Inr (lit CHR ''k'')
   \<and> lit CHR ''n'' \<le> lit CHR ''o'' \<and> lit CHR ''o'' \<le> lit CHR ''z''
   \<and> encrypt_character (lit CHR ''o'') 2 3 = Inr (lit CHR ''j'')
   \<and> lit CHR ''A'' \<le> lit CHR ''H'' \<and> lit CHR ''H'' \<le> lit CHR ''M''
   \<and> encrypt_character (lit CHR ''H'') 2 3 = Inr (lit CHR ''F'')
   \<and> lit CHR ''N'' \<le> lit CHR ''W'' \<and> lit CHR ''W'' \<le> lit CHR ''Z''
   \<and> encrypt_character (lit CHR ''W'') 2 3 = Inr (lit CHR ''F'')
   \<and> \<not> is_lower (lit CHR '','') \<and> \<not> is_upper (lit CHR '','')
   \<and> encrypt_character (lit CHR '','') 2 3 = Inr (lit CHR '','')"
  using encrypt_character_rule_table [of "lit CHR ''e''" 2 3] encrypt_character_rule_table [of "lit CHR ''o''" 2 3]
    encrypt_character_rule_table [of "lit CHR ''H''" 2 3] encrypt_character_rule_table [of "lit CHR ''W''" 2 3] encrypt_character_rule_table [of "lit CHR '',''" 2 3]
  by (auto simp add: lit_def py_ord_def is_lower_def is_upper_def)

text \<open>
  C7. The shifts are arbitrary integers, reduced modulo 26. For every character and all
  integers \<open>s1\<close>, \<open>s2\<close>, \<open>encrypt_character\<close> returns a character and raises nothing, it
  gives the same result for \<open>s1 mod 26\<close> and \<open>s2 mod 26\<close>, and a lower-case letter is
  sent to a lower-case letter, an upper-case letter to an upper-case letter. The same
  holds for \<open>decrypt_character\<close>.
\<close>

theorem shifts_modulo_26:
  "(\<exists>r. encrypt_character c s1 s2 = Inr r)
   \<and> encrypt_character c s1 s2 = encrypt_character c (s1 mod 26) (s2 mod 26)
   \<and> (is_lower c \<longrightarrow> (\<exists>r. encrypt_character c s1 s2 = Inr r \<and> is_lower r))
   \<and> (is_upper c \<longrightarrow> (\<exists>r. encrypt_character c s1 s2 = Inr r \<and> is_upper r))
   \<and> (\<exists>r. decrypt_character c s1 s2 = Inr r)
   \<and> decrypt_character c s1 s2 = decrypt_character c (s1 mod 26) (s2 mod 26)
   \<and> (is_lower c \<longrightarrow> (\<exists>r. decrypt_character c s1 s2 = Inr r \<and> is_lower r))
   \<and> (is_upper c \<longrightarrow> (\<exists>r. decrypt_character c s1 s2 = Inr r \<and> is_upper r))"
proof -
  obtain e where e: "encrypt_character c s1 s2 = Inr e"
    using encrypt_total by blast
  obtain d where d: "decrypt_character c s1 s2 = Inr d"
    using decrypt_total by blast
  have el: "is_lower c \<longrightarrow> (\<exists>r. encrypt_character c s1 s2 = Inr r \<and> is_lower r)"
    using e encrypt_lower_closed by blast
  have eu: "is_upper c \<longrightarrow> (\<exists>r. encrypt_character c s1 s2 = Inr r \<and> is_upper r)"
    using e encrypt_upper_closed by blast
  have dl: "is_lower c \<longrightarrow> (\<exists>r. decrypt_character c s1 s2 = Inr r \<and> is_lower r)"
    using d decrypt_lower_closed by blast
  have du: "is_upper c \<longrightarrow> (\<exists>r. decrypt_character c s1 s2 = Inr r \<and> is_upper r)"
    using d decrypt_upper_closed by blast
  from e d el eu dl du encrypt_mod_shifts [of c s1 s2] decrypt_mod_shifts [of c s1 s2]
  show ?thesis by blast
qed

theorem shifts_modulo_26_witness:
  "is_lower (lit CHR ''x'')
   \<and> encrypt_character (lit CHR ''x'') (- 31) 1000 = Inr (lit CHR ''q'')
   \<and> encrypt_character (lit CHR ''x'') ((- 31) mod 26) (1000 mod 26) = Inr (lit CHR ''q'')
   \<and> is_lower (lit CHR ''q'')
   \<and> is_upper (lit CHR ''Q'')
   \<and> decrypt_character (lit CHR ''Q'') (- 31) 1000 = Inr (lit CHR ''L'')
   \<and> decrypt_character (lit CHR ''Q'') ((- 31) mod 26) (1000 mod 26) = Inr (lit CHR ''L'')
   \<and> is_upper (lit CHR ''L'')"
proof -
  have ev: "is_lower (lit CHR ''x'')" "is_lower (lit CHR ''q'')"
    "is_upper (lit CHR ''Q'')" "is_upper (lit CHR ''L'')"
    "encrypt_character (lit CHR ''x'') (- 31) 1000 = Inr (lit CHR ''q'')"
    "decrypt_character (lit CHR ''Q'') (- 31) 1000 = Inr (lit CHR ''L'')"
    by code_simp+
  show ?thesis
    using shifts_modulo_26 [of "lit CHR ''x''" "- 31" 1000] shifts_modulo_26 [of "lit CHR ''Q''" "- 31" 1000] ev
    by simp
qed

text \<open>
  C4, as the claim states it: for every letter \<open>ch\<close>, \<open>decrypt_character\<close> returns a
  candidate of the same case alphabet that encrypts to \<open>ch\<close>. With shifts 2 and 3 no
  lower-case candidate encrypts to \<open>a\<close>, and \<open>decrypt_character\<close> returns \<open>a\<close> itself,
  which encrypts to \<open>g\<close>.
\<close>

theorem decrypt_character_lowest_candidate_counterexample:
  "\<not> (\<exists>i<26. decrypt_character (lit CHR ''a'') 2 3 = Inr (lit CHR ''a'' + i)
        \<and> encrypt_character (lit CHR ''a'' + i) 2 3 = Inr (lit CHR ''a''))"
proof -
  have d: "decrypt_character (lit CHR ''a'') 2 3 = Inr (lit CHR ''a'')"
    by code_simp
  have e: "encrypt_character (lit CHR ''a'') 2 3 = Inr (lit CHR ''g'')"
    by code_simp
  have "lit CHR ''g'' \<noteq> lit CHR ''a''"
    by (simp add: lit_def)
  with d e show ?thesis by auto
qed

text \<open>
  C4, amended. For every letter \<open>ch\<close> and all integer shifts: when some candidate of the
  same case alphabet encrypts to \<open>ch\<close>, \<open>decrypt_character\<close> returns the one of the
  lowest offset, the first met when the offsets 0 to 25 are scanned in increasing order;
  when no candidate does, it returns \<open>ch\<close> unchanged.
\<close>

theorem decrypt_character_lowest_candidate:
  "(is_lower ch \<longrightarrow>
      (if \<exists>i<26. encrypt_character (lit CHR ''a'' + i) s1 s2 = Inr ch
       then \<exists>i<26. decrypt_character ch s1 s2 = Inr (lit CHR ''a'' + i)
              \<and> encrypt_character (lit CHR ''a'' + i) s1 s2 = Inr ch
              \<and> (\<forall>j<i. encrypt_character (lit CHR ''a'' + j) s1 s2 \<noteq> Inr ch)
       else decrypt_character ch s1 s2 = Inr ch))
   \<and> (is_upper ch \<longrightarrow>
      (if \<exists>i<26. encrypt_character (lit CHR ''A'' + i) s1 s2 = Inr ch
       then \<exists>i<26. decrypt_character ch s1 s2 = Inr (lit CHR ''A'' + i)
              \<and> encrypt_character (lit CHR ''A'' + i) s1 s2 = Inr ch
              \<and> (\<forall>j<i. encrypt_character (lit CHR ''A'' + j) s1 s2 \<noteq> Inr ch)
       else decrypt_character ch s1 s2 = Inr ch))"
  using decrypt_lower_search [of ch s1 s2] decrypt_upper_search [of ch s1 s2]
  by (simp only: lit_values) blast

theorem decrypt_character_lowest_candidate_witness:
  "is_upper (lit CHR ''C'')
   \<and> encrypt_character (lit CHR ''A'' + 4) 2 3 = Inr (lit CHR ''C'')
   \<and> list_all (\<lambda>j. encrypt_character (lit CHR ''A'' + j) 2 3 \<noteq> Inr (lit CHR ''C'')) [0..<4]
   \<and> decrypt_character (lit CHR ''C'') 2 3 = Inr (lit CHR ''A'' + 4)
   \<and> is_lower (lit CHR ''a'')
   \<and> list_all (\<lambda>i. encrypt_character (lit CHR ''a'' + i) 2 3 \<noteq> Inr (lit CHR ''a'')) [0..<26]
   \<and> decrypt_character (lit CHR ''a'') 2 3 = Inr (lit CHR ''a'')"
proof -
  have ev: "is_upper (lit CHR ''C'')"
    "encrypt_character (lit CHR ''A'' + 4) 2 3 = Inr (lit CHR ''C'')"
    "list_all (\<lambda>j. encrypt_character (lit CHR ''A'' + j) 2 3 \<noteq> Inr (lit CHR ''C'')) [0..<4]"
    "decrypt_character (lit CHR ''C'') 2 3 = Inr (lit CHR ''A'' + 4)"
    "is_lower (lit CHR ''a'')"
    "list_all (\<lambda>i. encrypt_character (lit CHR ''a'' + i) 2 3 \<noteq> Inr (lit CHR ''a'')) [0..<26]"
    "decrypt_character (lit CHR ''a'') 2 3 = Inr (lit CHR ''a'')"
    by code_simp+
  show ?thesis
    using decrypt_character_lowest_candidate [of "lit CHR ''C''" 2 3]
      decrypt_character_lowest_candidate [of "lit CHR ''a''" 2 3] ev
    by simp
qed

text \<open>
  C10. For every letter \<open>ch\<close> and all integer shifts, decrypting the encryption of \<open>ch\<close>
  gives a letter of the same case whose offset is at most the offset of \<open>ch\<close> and which
  encrypts to the same character as \<open>ch\<close>. So for every character, letter or not,
  encrypting, decrypting and encrypting again gives the first encryption: the round-trip
  law holds on the image of the forward transform.
\<close>

theorem roundtrip_on_image:
  "(is_lower ch \<longrightarrow>
      (\<exists>c r. encrypt_character ch s1 s2 = Inr c \<and> decrypt_character c s1 s2 = Inr r
         \<and> is_lower r
         \<and> py_ord r - py_ord (lit CHR ''a'') \<le> py_ord ch - py_ord (lit CHR ''a'')
         \<and> encrypt_character r s1 s2 = Inr c))
   \<and> (is_upper ch \<longrightarrow>
      (\<exists>c r. encrypt_character ch s1 s2 = Inr c \<and> decrypt_character c s1 s2 = Inr r
         \<and> is_upper r
         \<and> py_ord r - py_ord (lit CHR ''A'') \<le> py_ord ch - py_ord (lit CHR ''A'')
         \<and> encrypt_character r s1 s2 = Inr c))
   \<and> (\<exists>c r. encrypt_character ch s1 s2 = Inr c \<and> decrypt_character c s1 s2 = Inr r
         \<and> encrypt_character r s1 s2 = Inr c)"
proof -
  have l: "is_lower ch \<longrightarrow>
      (\<exists>c r. encrypt_character ch s1 s2 = Inr c \<and> decrypt_character c s1 s2 = Inr r
         \<and> is_lower r
         \<and> py_ord r - py_ord (lit CHR ''a'') \<le> py_ord ch - py_ord (lit CHR ''a'')
         \<and> encrypt_character r s1 s2 = Inr c)"
    using roundtrip_lower [of ch s1 s2] by (simp add: py_ord_def)
  have u: "is_upper ch \<longrightarrow>
      (\<exists>c r. encrypt_character ch s1 s2 = Inr c \<and> decrypt_character c s1 s2 = Inr r
         \<and> is_upper r
         \<and> py_ord r - py_ord (lit CHR ''A'') \<le> py_ord ch - py_ord (lit CHR ''A'')
         \<and> encrypt_character r s1 s2 = Inr c)"
    using roundtrip_upper [of ch s1 s2] by (simp add: py_ord_def)
  have a: "\<exists>c r. encrypt_character ch s1 s2 = Inr c \<and> decrypt_character c s1 s2 = Inr r
         \<and> encrypt_character r s1 s2 = Inr c"
  proof (cases "is_lower ch \<or> is_upper ch")
    case True
    then show ?thesis using roundtrip_lower [of ch s1 s2] roundtrip_upper [of ch s1 s2] by blast
  next
    case False
    then show ?thesis by (simp add: encrypt_other decrypt_other)
  qed
  from l u a show ?thesis by blast
qed

theorem roundtrip_on_image_witness:
  "is_upper (lit CHR ''T'')
   \<and> encrypt_character (lit CHR ''T'') 2 3 = Inr (lit CHR ''C'')
   \<and> decrypt_character (lit CHR ''C'') 2 3 = Inr (lit CHR ''E'')
   \<and> is_upper (lit CHR ''E'')
   \<and> py_ord (lit CHR ''E'') - py_ord (lit CHR ''A'') \<le> py_ord (lit CHR ''T'') - py_ord (lit CHR ''A'')
   \<and> encrypt_character (lit CHR ''E'') 2 3 = Inr (lit CHR ''C'')
   \<and> is_lower (lit CHR ''o'')
   \<and> encrypt_character (lit CHR ''o'') 2 3 = Inr (lit CHR ''j'')
   \<and> decrypt_character (lit CHR ''j'') 2 3 = Inr (lit CHR ''d'')
   \<and> is_lower (lit CHR ''d'')
   \<and> py_ord (lit CHR ''d'') - py_ord (lit CHR ''a'') \<le> py_ord (lit CHR ''o'') - py_ord (lit CHR ''a'')
   \<and> encrypt_character (lit CHR ''d'') 2 3 = Inr (lit CHR ''j'')"
proof -
  have ev: "is_upper (lit CHR ''T'')"
    "encrypt_character (lit CHR ''T'') 2 3 = Inr (lit CHR ''C'')"
    "decrypt_character (lit CHR ''C'') 2 3 = Inr (lit CHR ''E'')"
    "is_upper (lit CHR ''E'')"
    "py_ord (lit CHR ''E'') - py_ord (lit CHR ''A'') \<le> py_ord (lit CHR ''T'') - py_ord (lit CHR ''A'')"
    "encrypt_character (lit CHR ''E'') 2 3 = Inr (lit CHR ''C'')"
    "is_lower (lit CHR ''o'')"
    "encrypt_character (lit CHR ''o'') 2 3 = Inr (lit CHR ''j'')"
    "decrypt_character (lit CHR ''j'') 2 3 = Inr (lit CHR ''d'')"
    "is_lower (lit CHR ''d'')"
    "py_ord (lit CHR ''d'') - py_ord (lit CHR ''a'') \<le> py_ord (lit CHR ''o'') - py_ord (lit CHR ''a'')"
    "encrypt_character (lit CHR ''d'') 2 3 = Inr (lit CHR ''j'')"
    by code_simp+
  show ?thesis
    using roundtrip_on_image [of "lit CHR ''T''" 2 3] roundtrip_on_image [of "lit CHR ''o''" 2 3] ev
    by simp
qed

text \<open>
  C9. Batch application keeps length and order. For every text and all integer shifts,
  \<open>encrypt_file\<close> and \<open>decrypt_file\<close> return a text of the length of their input, and
  the character at each position of the result is the transform of the character at the
  same position of the input, under the two shifts alone.
\<close>

theorem batch_length_and_positions:
  "(\<exists>out. encrypt_file T s1 s2 = Inr out \<and> length out = length T
      \<and> (\<forall>i<length T. encrypt_character (T ! i) s1 s2 = Inr (out ! i)))
   \<and> (\<exists>out. decrypt_file T s1 s2 = Inr out \<and> length out = length T
      \<and> (\<forall>i<length T. decrypt_character (T ! i) s1 s2 = Inr (out ! i)))"
proof -
  obtain e where "join_chars (\<lambda>ch. encrypt_character ch s1 s2) T = Inr e"
    "list_all2 (\<lambda>c r. encrypt_character c s1 s2 = Inr r) T e"
    using join_chars_pointwise [of "\<lambda>ch. encrypt_character ch s1 s2" T] encrypt_total by blast
  then have enc: "\<exists>out. encrypt_file T s1 s2 = Inr out \<and> length out = length T
      \<and> (\<forall>i<length T. encrypt_character (T ! i) s1 s2 = Inr (out ! i))"
    by (auto simp add: encrypt_file_def list_all2_conv_all_nth)
  obtain d where "join_chars (\<lambda>ch. decrypt_character ch s1 s2) T = Inr d"
    "list_all2 (\<lambda>c r. decrypt_character c s1 s2 = Inr r) T d"
    using join_chars_pointwise [of "\<lambda>ch. decrypt_character ch s1 s2" T] decrypt_total by blast
  then have dec: "\<exists>out. decrypt_file T s1 s2 = Inr out \<and> length out = length T
      \<and> (\<forall>i<length T. decrypt_character (T ! i) s1 s2 = Inr (out ! i))"
    by (auto simp add: decrypt_file_def list_all2_conv_all_nth)
  from enc dec show ?thesis by blast
qed

theorem batch_length_and_positions_witness:
  "encrypt_file (map lit ''Hello, World!'') 2 3 = Inr (map lit ''Fkrrj, Fjmrj!'')
   \<and> length (map lit ''Fkrrj, Fjmrj!'') = length (map lit ''Hello, World!'')
   \<and> encrypt_character (map lit ''Hello, World!'' ! 1) 2 3 = Inr (map lit ''Fkrrj, Fjmrj!'' ! 1)
   \<and> decrypt_file (map lit ''Fkrrj, Fjmrj!'') 2 3 = Inr (map lit ''Helld, Hdgld!'')
   \<and> length (map lit ''Helld, Hdgld!'') = length (map lit ''Fkrrj, Fjmrj!'')
   \<and> decrypt_character (map lit ''Fkrrj, Fjmrj!'' ! 4) 2 3 = Inr (map lit ''Helld, Hdgld!'' ! 4)"
proof -
  have ev: "encrypt_file (map lit ''Hello, World!'') 2 3 = Inr (map lit ''Fkrrj, Fjmrj!'')"
    "encrypt_character (map lit ''Hello, World!'' ! 1) 2 3 = Inr (map lit ''Fkrrj, Fjmrj!'' ! 1)"
    "decrypt_file (map lit ''Fkrrj, Fjmrj!'') 2 3 = Inr (map lit ''Helld, Hdgld!'')"
    "decrypt_character (map lit ''Fkrrj, Fjmrj!'' ! 4) 2 3 = Inr (map lit ''Helld, Hdgld!'' ! 4)"
    by code_simp+
  show ?thesis
    using batch_length_and_positions [of "map lit ''Hello, World!''" 2 3]
      batch_length_and_positions [of "map lit ''Fkrrj, Fjmrj!''" 2 3] ev
    by simp
qed

text \<open>
  C1. The claim is the round-trip law for every cipher text: decrypting each character
  and encrypting the result gives the cipher text back. On the one-character text \<open>a\<close>
  with shifts 2 and 3 the code decrypts \<open>a\<close> to \<open>a\<close>, encrypts that to \<open>g\<close>, and
  \<open>verify_roundtrip\<close> answers \<open>False\<close>.
\<close>

theorem roundtrip_fails_at_a_2_3:
  "decrypt_file [lit CHR ''a''] 2 3 = Inr [lit CHR ''a'']
   \<and> encrypt_file [lit CHR ''a''] 2 3 = Inr [lit CHR ''g'']
   \<and> verify_roundtrip [lit CHR ''a''] 2 3 = Inr False"
  by code_simp

text \<open>
  C3. The claim is that some candidate encrypts to every letter, so that the statement
  after the candidate loop is never reached. With shifts 2 and 3 none of the 26
  lower-case candidates encrypts to \<open>a\<close>: the loop runs to its end and
  \<open>decrypt_character\<close> returns \<open>a\<close> from the statement after it.
\<close>

theorem fallback_reached_at_a_2_3:
  "list_all (\<lambda>i. encrypt_character (lit CHR ''a'' + i) 2 3 \<noteq> Inr (lit CHR ''a'')) [0..<26]
   \<and> decrypt_loop (lit CHR ''a'') (lit CHR ''a'') 2 3 [0..<26] = Inr (lit CHR ''a'')
   \<and> decrypt_character (lit CHR ''a'') 2 3 = Inr (lit CHR ''a'')
   \<and> encrypt_character (lit CHR ''a'') 2 3 = Inr (lit CHR ''g'')"
  by code_simp

text \<open>
  C6. The claim is that \<open>verify_strict\<close> returns \<open>(True, [])\<close> exactly for equal texts
  and otherwise \<open>False\<close> with at most \<open>report_mismatches\<close> records. The loop tests the cap
  only after it has appended a record: with the cap 0 the texts \<open>a\<close> and \<open>b\<close> give one
  record, more than the cap allows. The length record is tested before it is appended,
  and with the same cap the texts \<open>Hello\<close> and \<open>Hello!\<close> give no record.
\<close>

theorem verify_strict_cap_exceeded_at_0:
  "verify_strict [lit CHR ''a''] [lit CHR ''b''] 0 = Inr (False, [At 0 (lit CHR ''a'') (lit CHR ''b'')])
   \<and> \<not> int (length [At 0 (lit CHR ''a'') (lit CHR ''b'')]) \<le> 0
   \<and> verify_strict (map lit ''Hello'') (map lit ''Hello!'') 0 = Inr (False, [])"
  by code_simp

end
